theory Spec2Isabelle
  imports Complex_Main
begin

section \<open>Frame sampling and filtering of \<^verbatim>\<open>tune.py\<close>\<close>

text \<open>
  The development embeds \<^verbatim>\<open>is_mostly_black_or_white\<close> and \<^verbatim>\<open>extract_frames\<close> of
  \<^verbatim>\<open>src/tune.py\<close>. The video capture, the grayscale conversion with its mean, and the
  perceptual hash are library code outside the repository: the capture is a finite list of
  frames, the mean brightness that the library measures is a function argument, and the
  hash function is the argument \<^verbatim>\<open>hash_func\<close> that \<^verbatim>\<open>extract_frames\<close> already takes. Everything
  the function does to the outside (prints, reads, calls, writes) is appended to a trace.
\<close>

subsection \<open>Exceptions\<close>

datatype py_error = ZeroDivisionError | TypeError | ValueError

subsection \<open>Fingerprints and their distance\<close>

text \<open>
  An \<^verbatim>\<open>ImageHash\<close> is a bit vector. The subtraction \<^verbatim>\<open>current_hash - previous_hash\<close> of line 70
  is the number of positions at which the two vectors differ; the library raises
  \<^verbatim>\<open>TypeError\<close> when the two have different sizes.
\<close>

type_synonym fingerprint = "bool list"

definition hamming :: "fingerprint \<Rightarrow> fingerprint \<Rightarrow> nat" where
  "hamming a b = length (filter (\<lambda>(x, y). x \<noteq> y) (zip a b))"

definition hash_sub :: "fingerprint \<Rightarrow> fingerprint \<Rightarrow> py_error + nat" where
  "hash_sub current other =
     (if length current \<noteq> length other then Inl TypeError
      else Inr (hamming current other))"

subsection \<open>The brightness classifier (lines 24 to 38)\<close>

text \<open>
  Lines 33 and 36 are two library calls, \<^verbatim>\<open>cv2.cvtColor\<close> to grayscale and \<^verbatim>\<open>cv2.mean\<close>, and
  \<^verbatim>\<open>average_brightness\<close> is the floating-point number they return. The function does no
  arithmetic of its own: \<open>gray_mean\<close> stands for the two calls, and its value is the
  rational number which that floating-point number denotes, whatever rounding the library
  made to reach it. A threshold is a Python int or a finite float, a rational number as
  well, and line 38 compares the two numbers as they are. A frame is a decoded image, as
  \<^verbatim>\<open>cap.read()\<close> returns it with \<^verbatim>\<open>ret\<close> true: the frame type holds no image without pixels,
  on which the library would raise.
\<close>

definition is_mostly_black_or_white ::
    "('f \<Rightarrow> rat) \<Rightarrow> 'f \<Rightarrow> rat \<Rightarrow> rat \<Rightarrow> bool" where
  "is_mostly_black_or_white gray_mean img threshold white_threshold =
     (let average_brightness = gray_mean img
      in average_brightness < threshold \<or> average_brightness > white_threshold)"

subsection \<open>Arguments, capture and trace of \<^verbatim>\<open>extract_frames\<close>\<close>

text \<open>
  The keyword arguments of \<^verbatim>\<open>extract_frames\<close> (line 40); the video path is the capture
  below. \<open>hash_func\<close> takes the frame and the grid size: the conversion of the frame to
  the image it hashes (line 62) is part of it. It may raise, as the library's hash
  functions do for a grid size below 2, and it returns a fingerprint otherwise.
\<close>

record 'f config =
  frame_interval :: int
  save_path :: string
  black_white_threshold :: rat
  hash_func :: "'f \<Rightarrow> int \<Rightarrow> py_error + fingerprint"
  hash_size :: int
  hash_diff_threshold :: int

text \<open>
  What the function finds outside: whether a path exists, whether the capture opened, the
  frame count and rate the container announces, and the frames that \<^verbatim>\<open>cap.read()\<close> returns
  with \<^verbatim>\<open>ret\<close> true, in order, before it returns \<^verbatim>\<open>ret\<close> false.
\<close>

record 'f world =
  path_exists :: "string \<Rightarrow> bool"
  is_opened :: bool
  frame_count :: int
  fps :: rat
  frames :: "'f list"

text \<open>
  The trace. Every event that belongs to a frame carries the value of \<^verbatim>\<open>frame_index\<close> at
  that point: \<open>CapRead\<close> a successful \<^verbatim>\<open>cap.read()\<close> (line 59), \<open>Classify\<close> the call of
  \<^verbatim>\<open>is_mostly_black_or_white\<close> (line 64), \<open>Hash\<close> the call of \<^verbatim>\<open>hash_func\<close> (line 65),
  \<open>PrintSkipDuplicate\<close> and \<open>PrintSkipBlackWhite\<close> the messages of lines 73 and 77,
  \<open>Imwrite\<close> the call of \<^verbatim>\<open>cv2.imwrite\<close> with its file name (line 81). The others are
  \<^verbatim>\<open>os.makedirs\<close> (line 42), the messages of lines 47, 52 and 91, and \<^verbatim>\<open>cap.release()\<close>.
\<close>

datatype 'f event =
    Makedirs string
  | PrintCouldNotOpen
  | PrintTotalFrames int rat
  | CapRead nat
  | Classify nat
  | Hash nat
  | PrintSkipDuplicate nat nat
  | PrintSkipBlackWhite nat
  | Imwrite string 'f
  | CapRelease
  | PrintDone nat string

record 'f state =
  frame_index :: nat
  saved_frame_count :: nat
  previous_hash :: "fingerprint option"
  trace :: "'f event list"

text \<open>An exception leaves with the state it was raised in.\<close>

type_synonym 'f result = "(py_error \<times> 'f state) + 'f state"

datatype 'f outcome = Raised py_error "'f event list" | Returned "'f event list"

subsection \<open>The file name of a kept frame (line 80)\<close>

definition digit_char :: "nat \<Rightarrow> char" where
  "digit_char d =
     (if d = 0 then CHR ''0'' else if d = 1 then CHR ''1'' else if d = 2 then CHR ''2''
      else if d = 3 then CHR ''3'' else if d = 4 then CHR ''4'' else if d = 5 then CHR ''5''
      else if d = 6 then CHR ''6'' else if d = 7 then CHR ''7'' else if d = 8 then CHR ''8''
      else CHR ''9'')"

fun str_nat :: "nat \<Rightarrow> string" where
  "str_nat n = (if n < 10 then [digit_char n] else str_nat (n div 10) @ [digit_char (n mod 10)])"

text \<open>\<^verbatim>\<open>os.path.join\<close> of two components, with the separator of \<^verbatim>\<open>posixpath\<close>.\<close>

definition os_path_join :: "string \<Rightarrow> string \<Rightarrow> string" where
  "os_path_join a b =
     (if b \<noteq> [] \<and> hd b = CHR ''/'' then b
      else if a = [] \<or> last a = CHR ''/'' then a @ b
      else a @ ''/'' @ b)"

definition save_filename :: "string \<Rightarrow> nat \<Rightarrow> string" where
  "save_filename path i = os_path_join path (''frame_'' @ str_nat i @ ''.jpg'')"

subsection \<open>One pass of the loop (lines 59 to 86)\<close>

text \<open>
  Lines 75 to 86: the black-or-white override, the write, the update of the stored
  fingerprint and the increment of the index. \<open>should_save\<close> is the flag as lines 67 to 73
  left it.
\<close>

definition save_and_advance ::
    "'f config \<Rightarrow> 'f state \<Rightarrow> 'f \<Rightarrow> bool \<Rightarrow> fingerprint \<Rightarrow> bool \<Rightarrow> 'f state" where
  "save_and_advance C s frame is_black_or_white current_hash should_save =
     (let i = frame_index s;
          s2 = (if is_black_or_white
                then s\<lparr>trace := trace s @ [PrintSkipBlackWhite i]\<rparr> else s);
          should_save2 = (if is_black_or_white then False else should_save);
          s3 = (if should_save2
                then s2\<lparr>trace := trace s2 @ [Imwrite (save_filename (save_path C) i) frame],
                        saved_frame_count := saved_frame_count s2 + 1\<rparr>
                else s2)
      in s3\<lparr>previous_hash := Some current_hash, frame_index := i + 1\<rparr>)"

text \<open>
  One pass with \<^verbatim>\<open>ret\<close> true. Python's \<^verbatim>\<open>%\<close> raises on a zero divisor and takes the sign of
  the divisor otherwise, as \<open>mod\<close> on \<open>int\<close> does. The white threshold is the default 225 of
  \<^verbatim>\<open>is_mostly_black_or_white\<close>: line 64 passes only \<^verbatim>\<open>threshold\<close>.
\<close>

definition iteration ::
    "('f \<Rightarrow> rat) \<Rightarrow> 'f config \<Rightarrow> 'f state \<Rightarrow> 'f \<Rightarrow> 'f result" where
  "iteration G C s frame =
     (let i = frame_index s;
          s0 = s\<lparr>trace := trace s @ [CapRead i]\<rparr>
      in if frame_interval C = 0 then Inl (ZeroDivisionError, s0)
         else if int i mod frame_interval C = 0 then
           (let is_black_or_white =
                  is_mostly_black_or_white G frame (black_white_threshold C) 225;
                s1 = s0\<lparr>trace := trace s0 @ [Classify i, Hash i]\<rparr>
            in case hash_func C frame (hash_size C) of
                 Inl e \<Rightarrow> Inl (e, s1)
               | Inr current_hash \<Rightarrow>
                   (case previous_hash s1 of
                      None \<Rightarrow> Inr (save_and_advance C s1 frame is_black_or_white current_hash True)
                    | Some previous \<Rightarrow>
                        (case hash_sub current_hash previous of
                           Inl e \<Rightarrow> Inl (e, s1)
                         | Inr hash_diff \<Rightarrow>
                             if int hash_diff < hash_diff_threshold C
                             then Inr (save_and_advance C
                                        (s1\<lparr>trace := trace s1 @ [PrintSkipDuplicate i hash_diff]\<rparr>)
                                        frame is_black_or_white current_hash False)
                             else Inr (save_and_advance C s1 frame is_black_or_white
                                        current_hash True))))
         else Inr (s0\<lparr>frame_index := i + 1\<rparr>))"

subsection \<open>The loop and the function (lines 40 to 91)\<close>

text \<open>The loop ends at the first \<^verbatim>\<open>cap.read()\<close> with \<^verbatim>\<open>ret\<close> false: the end of the list.\<close>

fun while_loop ::
    "('f \<Rightarrow> rat) \<Rightarrow> 'f config \<Rightarrow> 'f state \<Rightarrow> 'f list \<Rightarrow> 'f result" where
  "while_loop G C s [] = Inr s"
| "while_loop G C s (frame # rest) =
     (case iteration G C s frame of
        Inl e \<Rightarrow> Inl e
      | Inr s' \<Rightarrow> while_loop G C s' rest)"

definition preamble :: "'f config \<Rightarrow> 'f world \<Rightarrow> 'f event list" where
  "preamble C W =
     (if save_path C \<noteq> [] \<and> \<not> path_exists W (save_path C)
      then [Makedirs (save_path C)] else [])"

definition initial :: "'f config \<Rightarrow> 'f world \<Rightarrow> 'f state" where
  "initial C W =
     \<lparr>frame_index = 0, saved_frame_count = 0, previous_hash = None,
      trace = preamble C W @ [PrintTotalFrames (frame_count W) (fps W)]\<rparr>"

definition extract_frames ::
    "('f \<Rightarrow> rat) \<Rightarrow> 'f config \<Rightarrow> 'f world \<Rightarrow> 'f outcome" where
  "extract_frames G C W =
     (if \<not> is_opened W then Returned (preamble C W @ [PrintCouldNotOpen])
      else case while_loop G C (initial C W) (frames W) of
             Inl (e, s) \<Rightarrow> Raised e (trace s)
           | Inr s \<Rightarrow>
               Returned (trace s @ [CapRelease, PrintDone (saved_frame_count s) (save_path C)]))"

subsection \<open>Notions the statements use\<close>

text \<open>The events a pass or a run appended to the trace of the state it started in.\<close>

definition emitted :: "'f state \<Rightarrow> 'f state \<Rightarrow> 'f event list" where
  "emitted s s' = drop (length (trace s)) (trace s')"

fun outcome_trace :: "'f outcome \<Rightarrow> 'f event list" where
  "outcome_trace (Raised e t) = t"
| "outcome_trace (Returned t) = t"

text \<open>
  The rule of the deduplication gate in the words of the specification: with no previous
  fingerprint the frame is no duplicate, otherwise it is one exactly when the distance
  \<open>d\<close> to the previous fingerprint is below the threshold \<open>T\<close>. The result is \<open>Some d\<close> for a
  duplicate and \<open>None\<close> otherwise.
\<close>

definition gate :: "int \<Rightarrow> fingerprint option \<Rightarrow> fingerprint \<Rightarrow> nat option" where
  "gate T previous current =
     (case previous of
        None \<Rightarrow> None
      | Some p \<Rightarrow> if int (hamming current p) < T then Some (hamming current p) else None)"

text \<open>
  The events of one pass over the sampled frame of index \<open>i\<close>, with \<open>previous\<close> the stored
  fingerprint and \<open>h\<close> the fingerprint of the frame, written out as a list.
\<close>

definition sampled_events ::
    "('f \<Rightarrow> rat) \<Rightarrow> 'f config \<Rightarrow> nat \<Rightarrow> fingerprint option \<Rightarrow> fingerprint \<Rightarrow> 'f
       \<Rightarrow> 'f event list" where
  "sampled_events G C i previous h frame =
     [CapRead i, Classify i, Hash i]
     @ (case gate (hash_diff_threshold C) previous h of
          None \<Rightarrow> [] | Some d \<Rightarrow> [PrintSkipDuplicate i d])
     @ (if is_mostly_black_or_white G frame (black_white_threshold C) 225
        then [PrintSkipBlackWhite i] else [])
     @ (if gate (hash_diff_threshold C) previous h = None
           \<and> \<not> is_mostly_black_or_white G frame (black_white_threshold C) 225
        then [Imwrite (save_filename (save_path C) i) frame] else [])"

text \<open>
  The events that classify, hash, report or write a frame, and the frame and index such an
  event is about. A read is not among them: every frame is read.
\<close>

fun processes :: "'f event \<Rightarrow> bool" where
  "processes (Classify i) = True"
| "processes (Hash i) = True"
| "processes (PrintSkipDuplicate i d) = True"
| "processes (PrintSkipBlackWhite i) = True"
| "processes (Imwrite name frame) = True"
| "processes _ = False"

fun of_frame :: "string \<Rightarrow> 'f \<Rightarrow> nat \<Rightarrow> 'f event \<Rightarrow> bool" where
  "of_frame path frame i (Classify j) = (j = i)"
| "of_frame path frame i (Hash j) = (j = i)"
| "of_frame path frame i (PrintSkipDuplicate j d) = (j = i)"
| "of_frame path frame i (PrintSkipBlackWhite j) = (j = i)"
| "of_frame path frame i (Imwrite name written) =
     (name = save_filename path i \<and> written = frame)"
| "of_frame path frame i _ = False"

fun is_imwrite :: "'f event \<Rightarrow> bool" where
  "is_imwrite (Imwrite name frame) = True"
| "is_imwrite _ = False"

fun is_hash :: "'f event \<Rightarrow> bool" where
  "is_hash (Hash i) = True"
| "is_hash _ = False"

text \<open>The trace a result of the loop carries, whether it returned or raised.\<close>

fun result_trace :: "'f result \<Rightarrow> 'f event list" where
  "result_trace (Inl (e, s)) = trace s"
| "result_trace (Inr s) = trace s"

text \<open>
  What a run that returns reports last, and the number of frames a run sampled: its calls
  of the hash function.
\<close>

fun completion_report :: "'f outcome \<Rightarrow> 'f event option" where
  "completion_report (Raised e t) = None"
| "completion_report (Returned t) = (if t = [] then None else Some (last t))"

definition sampled_count :: "'f outcome \<Rightarrow> nat" where
  "sampled_count out = length (filter is_hash (outcome_trace out))"

text \<open>The events of a pass that finds its frame at distance 0 from the stored fingerprint.\<close>

definition duplicate_events :: "nat \<Rightarrow> 'f event list" where
  "duplicate_events i = [CapRead i, Classify i, Hash i, PrintSkipDuplicate i 0]"

subsection \<open>Example inputs\<close>

text \<open>
  Grayscale frames of two pixels by two. Their mean brightness is the sum of the four
  samples divided by 4, which binary floating point represents exactly for 8-bit samples.
  The hash function sets one bit per pixel of at least half brightness and refuses a grid
  size below 2, as the library's average hash does. The configuration has the defaults of
  \<^verbatim>\<open>extract_frames\<close> but for the stride and the distance threshold, which the examples
  choose.
\<close>

type_synonym gray_frame = "(nat \<times> nat) \<times> (nat \<times> nat)"

definition mean_of_four :: "gray_frame \<Rightarrow> rat" where
  "mean_of_four f = (case f of ((a, b), (c, d)) \<Rightarrow> rat_of_nat (a + b + c + d) / 4)"

definition bit_hash :: "gray_frame \<Rightarrow> int \<Rightarrow> py_error + fingerprint" where
  "bit_hash f n =
     (if n < 2 then Inl ValueError
      else case f of ((a, b), (c, d)) \<Rightarrow> Inr (map (\<lambda>v. 128 \<le> v) [a, b, c, d]))"

definition example_config :: "int \<Rightarrow> int \<Rightarrow> gray_frame config" where
  "example_config K T =
     \<lparr>frame_interval = K, save_path = ''out'', black_white_threshold = 10,
      hash_func = bit_hash, hash_size = 8, hash_diff_threshold = T\<rparr>"

definition example_world :: "gray_frame list \<Rightarrow> gray_frame world" where
  "example_world fs =
     \<lparr>path_exists = (\<lambda>p. True), is_opened = True, frame_count = int (length fs), fps = 30,
      frames = fs\<rparr>"

definition frame_a :: gray_frame where
  "frame_a = ((100, 200), (100, 200))"

definition frame_b :: gray_frame where
  "frame_b = ((100, 200), (100, 100))"

definition frame_black :: gray_frame where
  "frame_black = ((0, 0), (0, 4))"

section \<open>Properties of one pass\<close>

lemma emitted_append: "trace s' = trace s @ ev \<Longrightarrow> emitted s s' = ev"
  by (simp add: emitted_def)

lemma hamming_self: "hamming h h = 0"
  by (induction h) (auto simp: hamming_def)

lemma hash_sub_self: "hash_sub h h = Inr 0"
  by (simp add: hash_sub_def hamming_self)

lemma iteration_skip:
  assumes "frame_interval C \<noteq> 0" and "int (frame_index s) mod frame_interval C \<noteq> 0"
  shows "iteration G C s frame =
           Inr (s\<lparr>trace := trace s @ [CapRead (frame_index s)], frame_index := frame_index s + 1\<rparr>)"
  using assms by (simp add: iteration_def Let_def)

lemma iteration_zero:
  assumes "frame_interval C = 0"
  shows "iteration G C s frame = Inl (ZeroDivisionError, s\<lparr>trace := trace s @ [CapRead (frame_index s)]\<rparr>)"
  using assms by (simp add: iteration_def Let_def)

lemma iteration_sampled:
  assumes "iteration G C s frame = Inr s'"
      and "int (frame_index s) mod frame_interval C = 0"
  shows "\<exists>h. hash_func C frame (hash_size C) = Inr h \<and>
           s' = save_and_advance C
                  (s\<lparr>trace := trace s @ [CapRead (frame_index s), Classify (frame_index s), Hash (frame_index s)]
                        @ (case gate (hash_diff_threshold C) (previous_hash s) h of
                             None \<Rightarrow> [] | Some d \<Rightarrow> [PrintSkipDuplicate (frame_index s) d])\<rparr>)
                  frame (is_mostly_black_or_white G frame (black_white_threshold C) 225) h
                  (gate (hash_diff_threshold C) (previous_hash s) h = None)"
  using assms
  by (auto simp: iteration_def Let_def gate_def hash_sub_def split: sum.splits option.splits if_splits)

lemma iteration_sampled_fields:
  assumes "iteration G C s frame = Inr s'"
      and "int (frame_index s) mod frame_interval C = 0"
  shows "\<exists>h. hash_func C frame (hash_size C) = Inr h \<and>
           frame_index s' = Suc (frame_index s) \<and>
           previous_hash s' = Some h \<and>
           trace s' = trace s @ sampled_events G C (frame_index s) (previous_hash s) h frame \<and>
           saved_frame_count s' = saved_frame_count s +
             (if gate (hash_diff_threshold C) (previous_hash s) h = None
                 \<and> \<not> is_mostly_black_or_white G frame (black_white_threshold C) 225
              then 1 else 0)"
proof -
  from iteration_sampled [OF assms] obtain h where
    h: "hash_func C frame (hash_size C) = Inr h" and
    s': "s' = save_and_advance C
                  (s\<lparr>trace := trace s @ [CapRead (frame_index s), Classify (frame_index s), Hash (frame_index s)]
                        @ (case gate (hash_diff_threshold C) (previous_hash s) h of
                             None \<Rightarrow> [] | Some d \<Rightarrow> [PrintSkipDuplicate (frame_index s) d])\<rparr>)
                  frame (is_mostly_black_or_white G frame (black_white_threshold C) 225) h
                  (gate (hash_diff_threshold C) (previous_hash s) h = None)"
    by blast
  show ?thesis
    using h unfolding s' by (simp add: save_and_advance_def sampled_events_def Let_def)
qed

lemma iteration_skip_fields:
  assumes "iteration G C s frame = Inr s'"
      and "int (frame_index s) mod frame_interval C \<noteq> 0"
  shows "s' = s\<lparr>trace := trace s @ [CapRead (frame_index s)], frame_index := Suc (frame_index s)\<rparr>"
  using assms by (auto simp: iteration_def Let_def split: if_splits)

lemma iteration_frame_index:
  "iteration G C s frame = Inr s' \<Longrightarrow> frame_index s' = Suc (frame_index s)"
  by (cases "int (frame_index s) mod frame_interval C = 0")
     (auto dest: iteration_sampled_fields iteration_skip_fields)

lemma while_loop_append:
  "while_loop G C s (xs @ ys) =
     (case while_loop G C s xs of Inl e \<Rightarrow> Inl e | Inr s' \<Rightarrow> while_loop G C s' ys)"
  by (induction xs arbitrary: s) (auto split: sum.splits)

lemma while_loop_frame_index:
  "while_loop G C s fs = Inr s' \<Longrightarrow> frame_index s' = frame_index s + length fs"
  by (induction fs arbitrary: s) (auto split: sum.splits dest: iteration_frame_index)

lemma sampled_events_of_frame:
  "e \<in> set (sampled_events G C i previous h frame) \<Longrightarrow> processes e \<Longrightarrow>
     of_frame (save_path C) frame i e"
  by (auto simp: sampled_events_def split: option.splits if_splits)

lemma iteration_trace:
  assumes "iteration G C s frame = Inr s'"
  shows "\<exists>ev. trace s' = trace s @ ev \<and>
           (\<forall>e\<in>set ev. processes e \<longrightarrow>
              int (frame_index s) mod frame_interval C = 0 \<and>
              of_frame (save_path C) frame (frame_index s) e) \<and>
           saved_frame_count s' = saved_frame_count s + length (filter is_imwrite ev)"
proof (cases "int (frame_index s) mod frame_interval C = 0")
  case True
  from iteration_sampled_fields [OF assms True] obtain h where
    t: "trace s' = trace s @ sampled_events G C (frame_index s) (previous_hash s) h frame"
    and c: "saved_frame_count s' = saved_frame_count s +
             (if gate (hash_diff_threshold C) (previous_hash s) h = None
                 \<and> \<not> is_mostly_black_or_white G frame (black_white_threshold C) 225
              then 1 else 0)"
    by blast
  have "length (filter is_imwrite (sampled_events G C (frame_index s) (previous_hash s) h frame)) =
          (if gate (hash_diff_threshold C) (previous_hash s) h = None
                 \<and> \<not> is_mostly_black_or_white G frame (black_white_threshold C) 225
              then 1 else 0)"
    by (simp add: sampled_events_def split: option.splits)
  with t c True show ?thesis
    using sampled_events_of_frame by fastforce
next
  case False
  from iteration_skip_fields [OF assms False] show ?thesis by simp
qed

lemma while_loop_trace:
  "while_loop G C s fs = Inr s' \<Longrightarrow>
     \<exists>ev. trace s' = trace s @ ev \<and>
       (\<forall>e\<in>set ev. processes e \<longrightarrow>
          (\<exists>k<length fs. int (frame_index s + k) mod frame_interval C = 0 \<and>
             of_frame (save_path C) (fs ! k) (frame_index s + k) e)) \<and>
       saved_frame_count s' = saved_frame_count s + length (filter is_imwrite ev)"
proof (induction fs arbitrary: s)
  case Nil
  then show ?case by simp
next
  case (Cons f fs)
  from Cons.prems obtain s1 where
    it: "iteration G C s f = Inr s1" and rest: "while_loop G C s1 fs = Inr s'"
    by (auto split: sum.splits)
  from iteration_trace [OF it] obtain ev1 where
    t1: "trace s1 = trace s @ ev1" and
    p1: "\<forall>e\<in>set ev1. processes e \<longrightarrow>
              int (frame_index s) mod frame_interval C = 0 \<and>
              of_frame (save_path C) f (frame_index s) e" and
    c1: "saved_frame_count s1 = saved_frame_count s + length (filter is_imwrite ev1)"
    by blast
  from Cons.IH [OF rest] obtain ev2 where
    t2: "trace s' = trace s1 @ ev2" and
    p2: "\<forall>e\<in>set ev2. processes e \<longrightarrow>
          (\<exists>k<length fs. int (frame_index s1 + k) mod frame_interval C = 0 \<and>
             of_frame (save_path C) (fs ! k) (frame_index s1 + k) e)" and
    c2: "saved_frame_count s' = saved_frame_count s1 + length (filter is_imwrite ev2)"
    by blast
  have i1: "frame_index s1 = Suc (frame_index s)"
    using it by (rule iteration_frame_index)
  have "\<forall>e\<in>set (ev1 @ ev2). processes e \<longrightarrow>
          (\<exists>k<length (f # fs). int (frame_index s + k) mod frame_interval C = 0 \<and>
             of_frame (save_path C) ((f # fs) ! k) (frame_index s + k) e)"
  proof (intro ballI impI)
    fix e assume e: "e \<in> set (ev1 @ ev2)" and pe: "processes e"
    show "\<exists>k<length (f # fs). int (frame_index s + k) mod frame_interval C = 0 \<and>
             of_frame (save_path C) ((f # fs) ! k) (frame_index s + k) e"
    proof (cases "e \<in> set ev1")
      case True
      with p1 pe have "0 < length (f # fs) \<and> int (frame_index s + 0) mod frame_interval C = 0 \<and>
              of_frame (save_path C) ((f # fs) ! 0) (frame_index s + 0) e" by simp
      then show ?thesis by (rule exI [of _ 0])
    next
      case False
      with e have "e \<in> set ev2" by simp
      with p2 have "processes e \<longrightarrow>
          (\<exists>k<length fs. int (frame_index s1 + k) mod frame_interval C = 0 \<and>
             of_frame (save_path C) (fs ! k) (frame_index s1 + k) e)" by (rule bspec)
      with pe obtain k where k: "k < length fs"
        "int (frame_index s1 + k) mod frame_interval C = 0"
        "of_frame (save_path C) (fs ! k) (frame_index s1 + k) e" by auto
      then have "Suc k < length (f # fs) \<and> int (frame_index s + Suc k) mod frame_interval C = 0 \<and>
             of_frame (save_path C) ((f # fs) ! Suc k) (frame_index s + Suc k) e"
        using i1 by simp
      then show ?thesis by (rule exI [of _ "Suc k"])
    qed
  qed
  moreover have "trace s' = trace s @ (ev1 @ ev2)" using t1 t2 by simp
  moreover have "saved_frame_count s' = saved_frame_count s + length (filter is_imwrite (ev1 @ ev2))"
    using c1 c2 by simp
  ultimately show ?case by blast
qed

lemmas ex_defs = extract_frames_def initial_def preamble_def iteration_def
  save_and_advance_def is_mostly_black_or_white_def hash_sub_def hamming_def
  save_filename_def os_path_join_def digit_char_def example_config_def example_world_def
  frame_a_def frame_b_def frame_black_def mean_of_four_def bit_hash_def Let_def

section \<open>One pass over a sampled frame\<close>

text \<open>
  Claim C2. In a pass over a sampled frame that completes, the duplicate message with
  distance \<open>d\<close> is printed exactly when a previous fingerprint \<open>p\<close> is stored, the
  subtraction of line 70 yields \<open>d\<close>, and \<open>d\<close> is strictly below the distance threshold;
  with no previous fingerprint the frame is never flagged. The subtraction yields the
  Hamming distance of the two fingerprints.
\<close>

theorem gate_flags_duplicate:
  assumes "iteration G C s frame = Inr s'"
      and "int (frame_index s) mod frame_interval C = 0"
      and "hash_func C frame (hash_size C) = Inr current"
  shows "(PrintSkipDuplicate (frame_index s) d \<in> set (emitted s s') \<longleftrightarrow>
            (case previous_hash s of
               None \<Rightarrow> False
             | Some p \<Rightarrow> hash_sub current p = Inr d \<and> int d < hash_diff_threshold C))
         \<and> (case previous_hash s of
               None \<Rightarrow> True
             | Some p \<Rightarrow> hash_sub current p = Inr (hamming current p))"
proof -
  from iteration_sampled_fields [OF assms(1,2)] assms(3)
  have t: "trace s' = trace s @ sampled_events G C (frame_index s) (previous_hash s) current frame"
    by auto
  have e: "emitted s s' = sampled_events G C (frame_index s) (previous_hash s) current frame"
    using t by (rule emitted_append)
  have len: "case previous_hash s of None \<Rightarrow> True
             | Some p \<Rightarrow> hash_sub current p = Inr (hamming current p)"
    using assms by (auto simp: iteration_def Let_def hash_sub_def split: option.splits sum.splits if_splits)
  show ?thesis
    using len unfolding e
    by (auto simp: sampled_events_def gate_def split: option.splits if_splits)
qed

theorem gate_flags_duplicate_witness:
  "iteration mean_of_four (example_config 1 2)
     \<lparr>frame_index = 1, saved_frame_count = 1,
      previous_hash = Some [False, True, False, True], trace = []\<rparr> frame_b
     = Inr \<lparr>frame_index = 2, saved_frame_count = 1,
            previous_hash = Some [False, True, False, False],
            trace = [CapRead 1, Classify 1, Hash 1, PrintSkipDuplicate 1 1]\<rparr>
   \<and> hash_func (example_config 1 2) frame_b (hash_size (example_config 1 2))
       = Inr [False, True, False, False]
   \<and> PrintSkipDuplicate 1 1
       \<in> set (emitted
               (\<lparr>frame_index = 1, saved_frame_count = 1,
                 previous_hash = Some [False, True, False, True], trace = []\<rparr>
                :: gray_frame state)
               \<lparr>frame_index = 2, saved_frame_count = 1,
                previous_hash = Some [False, True, False, False],
                trace = [CapRead 1, Classify 1, Hash 1, PrintSkipDuplicate 1 1]\<rparr>)
   \<and> hash_sub [False, True, False, False] [False, True, False, True] = Inr 1"
proof -
  let ?s = "\<lparr>frame_index = 1, saved_frame_count = 1,
      previous_hash = Some [False, True, False, True], trace = []\<rparr> :: gray_frame state"
  let ?s' = "\<lparr>frame_index = 2, saved_frame_count = 1,
            previous_hash = Some [False, True, False, False],
            trace = [CapRead 1, Classify 1, Hash 1, PrintSkipDuplicate 1 1]\<rparr> :: gray_frame state"
  have run: "iteration mean_of_four (example_config 1 2) ?s frame_b = Inr ?s'"
    by (simp add: ex_defs)
  have sampled: "int (frame_index ?s) mod frame_interval (example_config 1 2) = 0"
    by (simp add: example_config_def)
  have h: "hash_func (example_config 1 2) frame_b (hash_size (example_config 1 2))
             = Inr [False, True, False, False]"
    by (simp add: example_config_def bit_hash_def frame_b_def)
  have d: "hash_sub [False, True, False, False] [False, True, False, True] = Inr 1"
    by (simp add: hash_sub_def hamming_def)
  from gate_flags_duplicate [OF run sampled h, of 1]
  have m: "PrintSkipDuplicate 1 1 \<in> set (emitted ?s ?s')"
    by (simp add: example_config_def hash_sub_def hamming_def)
  show ?thesis by (intro conjI run h m d)
qed

text \<open>
  Claim C3, as amended. A pass over a sampled frame that completes appends, in this order:
  the read, the two calls, the duplicate message with its distance when the gate flags the
  frame (whether or not the frame is also black or white), the black-or-white message when
  the classifier flags it, and the write when neither flags it. A frame that is both a
  duplicate and black or white is reported with both messages, the duplicate one first.
\<close>

theorem sampled_pass_reports:
  assumes "iteration G C s frame = Inr s'"
      and "int (frame_index s) mod frame_interval C = 0"
      and "hash_func C frame (hash_size C) = Inr h"
  shows "emitted s s' =
           [CapRead (frame_index s), Classify (frame_index s), Hash (frame_index s)]
           @ (case gate (hash_diff_threshold C) (previous_hash s) h of
                None \<Rightarrow> [] | Some d \<Rightarrow> [PrintSkipDuplicate (frame_index s) d])
           @ (if is_mostly_black_or_white G frame (black_white_threshold C) 225
              then [PrintSkipBlackWhite (frame_index s)] else [])
           @ (if gate (hash_diff_threshold C) (previous_hash s) h = None
                 \<and> \<not> is_mostly_black_or_white G frame (black_white_threshold C) 225
              then [Imwrite (save_filename (save_path C) (frame_index s)) frame] else [])"
proof -
  from iteration_sampled_fields [OF assms(1,2)] assms(3)
  have "trace s' = trace s @ sampled_events G C (frame_index s) (previous_hash s) h frame"
    by auto
  then have "emitted s s' = sampled_events G C (frame_index s) (previous_hash s) h frame"
    by (rule emitted_append)
  then show ?thesis by (simp add: sampled_events_def)
qed

theorem sampled_pass_reports_witness:
  "iteration mean_of_four (example_config 1 10)
     \<lparr>frame_index = 1, saved_frame_count = 0,
      previous_hash = Some [False, False, False, False], trace = []\<rparr> frame_black
     = Inr \<lparr>frame_index = 2, saved_frame_count = 0,
            previous_hash = Some [False, False, False, False],
            trace = [CapRead 1, Classify 1, Hash 1, PrintSkipDuplicate 1 0,
                     PrintSkipBlackWhite 1]\<rparr>
   \<and> emitted
        (\<lparr>frame_index = 1, saved_frame_count = 0,
          previous_hash = Some [False, False, False, False], trace = []\<rparr>
         :: gray_frame state)
        \<lparr>frame_index = 2, saved_frame_count = 0,
         previous_hash = Some [False, False, False, False],
         trace = [CapRead 1, Classify 1, Hash 1, PrintSkipDuplicate 1 0,
                  PrintSkipBlackWhite 1]\<rparr>
       = [CapRead 1, Classify 1, Hash 1, PrintSkipDuplicate 1 0, PrintSkipBlackWhite 1]"
proof -
  let ?s = "\<lparr>frame_index = 1, saved_frame_count = 0,
      previous_hash = Some [False, False, False, False], trace = []\<rparr> :: gray_frame state"
  let ?s' = "\<lparr>frame_index = 2, saved_frame_count = 0,
            previous_hash = Some [False, False, False, False],
            trace = [CapRead 1, Classify 1, Hash 1, PrintSkipDuplicate 1 0,
                     PrintSkipBlackWhite 1]\<rparr> :: gray_frame state"
  have run: "iteration mean_of_four (example_config 1 10) ?s frame_black = Inr ?s'"
    by (simp add: ex_defs)
  have sampled: "int (frame_index ?s) mod frame_interval (example_config 1 10) = 0"
    by (simp add: example_config_def)
  have h: "hash_func (example_config 1 10) frame_black (hash_size (example_config 1 10))
             = Inr [False, False, False, False]"
    by (simp add: example_config_def bit_hash_def frame_black_def)
  from sampled_pass_reports [OF run sampled h]
  have m: "emitted ?s ?s' = [CapRead 1, Classify 1, Hash 1, PrintSkipDuplicate 1 0, PrintSkipBlackWhite 1]"
    by (simp add: ex_defs gate_def)
  show ?thesis by (intro conjI run m)
qed

text \<open>
  The claim as first stated fails: two black frames at stride 1 and the default thresholds.
  The second is both black and a duplicate of the first, and the duplicate message is
  printed for it before the black-or-white one.
\<close>

theorem degenerate_precedence_counterexample:
  "is_mostly_black_or_white mean_of_four frame_black 10 225 \<and>
   extract_frames mean_of_four (example_config 1 10) (example_world [frame_black, frame_black])
     = Returned [PrintTotalFrames 2 30,
                 CapRead 0, Classify 0, Hash 0, PrintSkipBlackWhite 0,
                 CapRead 1, Classify 1, Hash 1, PrintSkipDuplicate 1 0, PrintSkipBlackWhite 1,
                 CapRelease, PrintDone 0 ''out'']"
  by (simp add: ex_defs)

section \<open>Properties of the loop\<close>

lemma iteration_sampled_hash:
  assumes "iteration G C s frame = Inr s'"
      and "int (frame_index s) mod frame_interval C = 0"
  shows "\<exists>h. hash_func C frame (hash_size C) = Inr h \<and> previous_hash s' = Some h"
  using iteration_sampled_fields [OF assms] by blast

lemma iteration_previous_hash:
  assumes "iteration G C s frame = Inr s'" and "previous_hash s \<noteq> None"
  shows "previous_hash s' \<noteq> None"
proof (cases "int (frame_index s) mod frame_interval C = 0")
  case True
  from iteration_sampled_hash [OF assms(1) True] show ?thesis by auto
next
  case False
  from iteration_skip_fields [OF assms(1) False] assms(2) show ?thesis by simp
qed

lemma while_loop_previous_hash:
  "while_loop G C s fs = Inr s' \<Longrightarrow> previous_hash s \<noteq> None \<Longrightarrow> previous_hash s' \<noteq> None"
proof (induction fs arbitrary: s)
  case Nil
  then show ?case by simp
next
  case (Cons f fs)
  from Cons.prems(1) obtain s1 where
    it: "iteration G C s f = Inr s1" and rest: "while_loop G C s1 fs = Inr s'"
    by (auto split: sum.splits)
  from iteration_previous_hash [OF it Cons.prems(2)] have "previous_hash s1 \<noteq> None" .
  with Cons.IH [OF rest] show ?case .
qed

lemma while_loop_first_sets:
  assumes "while_loop G C s (f # fs) = Inr s'" and "frame_index s = 0"
  shows "previous_hash s' \<noteq> None"
proof -
  from assms(1) obtain s1 where
    it: "iteration G C s f = Inr s1" and rest: "while_loop G C s1 fs = Inr s'"
    by (auto split: sum.splits)
  have "int (frame_index s) mod frame_interval C = 0" using assms(2) by simp
  from iteration_sampled_hash [OF it this] have "previous_hash s1 \<noteq> None" by auto
  with while_loop_previous_hash [OF rest] show ?thesis .
qed

lemma while_loop_snoc:
  assumes "while_loop G C s (fs @ [f]) = Inr s'"
  shows "\<exists>s1. while_loop G C s fs = Inr s1 \<and> iteration G C s1 f = Inr s'"
  using assms by (auto simp: while_loop_append split: sum.splits)

lemma extract_frames_returned:
  assumes "is_opened W" and "extract_frames G C W = Returned t"
  shows "\<exists>s. while_loop G C (initial C W) (frames W) = Inr s \<and>
           t = trace s @ [CapRelease, PrintDone (saved_frame_count s) (save_path C)]"
  using assms by (auto simp: extract_frames_def split: sum.splits)

lemma processes_initial: "e \<in> set (trace (initial C W)) \<Longrightarrow> \<not> processes e"
  by (auto simp: initial_def preamble_def split: if_splits)

lemma filter_imwrite_initial: "filter is_imwrite (trace (initial C W)) = []"
  by (simp add: initial_def preamble_def)

lemma while_loop_classifies:
  "while_loop G C s fs = Inr s' \<Longrightarrow> k < length fs \<Longrightarrow>
     int (frame_index s + k) mod frame_interval C = 0 \<Longrightarrow>
     Classify (frame_index s + k) \<in> set (trace s') \<and> Hash (frame_index s + k) \<in> set (trace s')"
proof (induction fs arbitrary: s k)
  case Nil
  then show ?case by simp
next
  case (Cons f fs)
  from Cons.prems(1) obtain s1 where
    it: "iteration G C s f = Inr s1" and rest: "while_loop G C s1 fs = Inr s'"
    by (auto split: sum.splits)
  have i1: "frame_index s1 = Suc (frame_index s)"
    using it by (rule iteration_frame_index)
  show ?case
  proof (cases k)
    case 0
    with Cons.prems(3) have "int (frame_index s) mod frame_interval C = 0" by simp
    from iteration_sampled_fields [OF it this] obtain h where
      "trace s1 = trace s @ sampled_events G C (frame_index s) (previous_hash s) h f"
      by blast
    then have "Classify (frame_index s) \<in> set (trace s1) \<and> Hash (frame_index s) \<in> set (trace s1)"
      by (simp add: sampled_events_def)
    moreover from while_loop_trace [OF rest] have "\<exists>ev. trace s' = trace s1 @ ev"
      by (elim exE conjE) (rule exI)
    ultimately show ?thesis using 0 by auto
  next
    case (Suc k')
    with Cons.prems(2) have k': "k' < length fs" by simp
    from Suc Cons.prems(3) i1
    have m: "int (frame_index s1 + k') mod frame_interval C = 0" by simp
    have "Classify (frame_index s1 + k') \<in> set (trace s') \<and>
        Hash (frame_index s1 + k') \<in> set (trace s')"
      using rest k' m by (rule Cons.IH)
    then show ?thesis using Suc i1 by simp
  qed
qed

lemma iteration_result_trace:
  "\<exists>ev. result_trace (iteration G C s frame) = trace s @ ev"
  by (auto simp: iteration_def save_and_advance_def Let_def split: sum.splits option.splits)

lemma while_loop_result_trace:
  "\<exists>ev. result_trace (while_loop G C s fs) = trace s @ ev"
proof (induction fs arbitrary: s)
  case Nil
  show ?case by simp
next
  case (Cons f fs)
  obtain ev1 where e1: "result_trace (iteration G C s f) = trace s @ ev1"
    using iteration_result_trace [of G C s f] by (elim exE)
  show ?case
  proof (cases "iteration G C s f")
    case (Inl a)
    with e1 show ?thesis by auto
  next
    case (Inr s1)
    obtain ev2 where "result_trace (while_loop G C s1 fs) = trace s1 @ ev2"
      using Cons.IH [of s1] by (elim exE)
    with Inr e1 show ?thesis by simp
  qed
qed

lemma iteration_first_events:
  assumes "frame_interval C \<noteq> 0" and "int (frame_index s) mod frame_interval C = 0"
  shows "\<exists>ev. result_trace (iteration G C s frame) =
           trace s @ [CapRead (frame_index s), Classify (frame_index s), Hash (frame_index s)] @ ev"
  using assms
  by (auto simp: iteration_def save_and_advance_def Let_def split: sum.splits option.splits)

lemma extract_frames_trace:
  "is_opened W \<Longrightarrow>
     outcome_trace (extract_frames G C W) =
       (case while_loop G C (initial C W) (frames W) of
          Inl (e, s) \<Rightarrow> trace s
        | Inr s \<Rightarrow> trace s @ [CapRelease, PrintDone (saved_frame_count s) (save_path C)])"
  by (auto simp: extract_frames_def split: sum.splits)

lemma iteration_result_events:
  "\<exists>ev. result_trace (iteration G C s frame) = trace s @ ev \<and>
     (\<forall>e\<in>set ev. processes e \<longrightarrow>
        int (frame_index s) mod frame_interval C = 0 \<and>
        of_frame (save_path C) frame (frame_index s) e)"
  by (auto simp: iteration_def save_and_advance_def Let_def split: sum.splits option.splits)

lemma while_loop_result_events:
  "\<exists>ev. result_trace (while_loop G C s fs) = trace s @ ev \<and>
     (\<forall>e\<in>set ev. processes e \<longrightarrow>
        (\<exists>k<length fs. int (frame_index s + k) mod frame_interval C = 0 \<and>
           of_frame (save_path C) (fs ! k) (frame_index s + k) e))"
proof (induction fs arbitrary: s)
  case Nil
  show ?case by simp
next
  case (Cons f fs)
  obtain ev1 where
    t1: "result_trace (iteration G C s f) = trace s @ ev1" and
    p1: "\<forall>e\<in>set ev1. processes e \<longrightarrow>
              int (frame_index s) mod frame_interval C = 0 \<and>
              of_frame (save_path C) f (frame_index s) e"
    using iteration_result_events [of G C s f] by (elim exE conjE)
  have first: "\<exists>k<length (f # fs). int (frame_index s + k) mod frame_interval C = 0 \<and>
             of_frame (save_path C) ((f # fs) ! k) (frame_index s + k) e"
    if "e \<in> set ev1" and "processes e" for e
  proof -
    from p1 that have "0 < length (f # fs) \<and> int (frame_index s + 0) mod frame_interval C = 0 \<and>
              of_frame (save_path C) ((f # fs) ! 0) (frame_index s + 0) e" by simp
    then show ?thesis by (rule exI [of _ 0])
  qed
  show ?case
  proof (cases "iteration G C s f")
    case (Inl a)
    with t1 have "result_trace (while_loop G C s (f # fs)) = trace s @ ev1" by simp
    with first show ?thesis by blast
  next
    case (Inr s1)
    obtain ev2 where
      t2: "result_trace (while_loop G C s1 fs) = trace s1 @ ev2" and
      p2: "\<forall>e\<in>set ev2. processes e \<longrightarrow>
        (\<exists>k<length fs. int (frame_index s1 + k) mod frame_interval C = 0 \<and>
           of_frame (save_path C) (fs ! k) (frame_index s1 + k) e)"
      using Cons.IH [of s1] by (elim exE conjE)
    have i1: "frame_index s1 = Suc (frame_index s)"
      using Inr by (rule iteration_frame_index)
    have later: "\<exists>k<length (f # fs). int (frame_index s + k) mod frame_interval C = 0 \<and>
             of_frame (save_path C) ((f # fs) ! k) (frame_index s + k) e"
      if "e \<in> set ev2" and "processes e" for e
    proof -
      from p2 that(1) have "processes e \<longrightarrow>
        (\<exists>k<length fs. int (frame_index s1 + k) mod frame_interval C = 0 \<and>
           of_frame (save_path C) (fs ! k) (frame_index s1 + k) e)" by (rule bspec)
      with that(2) obtain k where "k < length fs"
        "int (frame_index s1 + k) mod frame_interval C = 0"
        "of_frame (save_path C) (fs ! k) (frame_index s1 + k) e" by auto
      then have "Suc k < length (f # fs) \<and>
             int (frame_index s + Suc k) mod frame_interval C = 0 \<and>
             of_frame (save_path C) ((f # fs) ! Suc k) (frame_index s + Suc k) e"
        using i1 by simp
      then show ?thesis by (rule exI [of _ "Suc k"])
    qed
    have A: "result_trace (while_loop G C s (f # fs)) = trace s @ (ev1 @ ev2)"
      using Inr t1 t2 by simp
    have B: "\<forall>e\<in>set (ev1 @ ev2). processes e \<longrightarrow>
          (\<exists>k<length (f # fs). int (frame_index s + k) mod frame_interval C = 0 \<and>
             of_frame (save_path C) ((f # fs) ! k) (frame_index s + k) e)"
      using first later by auto
    show ?thesis by (intro exI [of _ "ev1 @ ev2"] conjI A B)
  qed
qed

lemma extract_frames_events:
  "e \<in> set (outcome_trace (extract_frames G C W)) \<Longrightarrow> processes e \<Longrightarrow>
     \<exists>i<length (frames W). int i mod frame_interval C = 0 \<and>
        of_frame (save_path C) (frames W ! i) i e"
proof (cases "is_opened W")
  case False
  assume "e \<in> set (outcome_trace (extract_frames G C W))" and "processes e"
  with False show ?thesis
    by (auto simp: extract_frames_def preamble_def split: if_splits)
next
  case True
  assume e: "e \<in> set (outcome_trace (extract_frames G C W))" and pe: "processes e"
  obtain ev where
    t: "result_trace (while_loop G C (initial C W) (frames W)) = trace (initial C W) @ ev" and
    p: "\<forall>e\<in>set ev. processes e \<longrightarrow>
        (\<exists>k<length (frames W). int (frame_index (initial C W) + k) mod frame_interval C = 0 \<and>
           of_frame (save_path C) (frames W ! k) (frame_index (initial C W) + k) e)"
    using while_loop_result_events [of G C "initial C W" "frames W"] by (elim exE conjE)
  have "set (outcome_trace (extract_frames G C W)) \<subseteq>
          set (result_trace (while_loop G C (initial C W) (frames W)))
          \<union> {CapRelease, PrintDone (saved_frame_count (projr (while_loop G C (initial C W) (frames W)))) (save_path C)}"
    using True by (auto simp: extract_frames_trace split: sum.splits)
  with e pe have "e \<in> set (result_trace (while_loop G C (initial C W) (frames W)))"
    by auto
  with t pe processes_initial have "e \<in> set ev" by auto
  with p have "processes e \<longrightarrow>
        (\<exists>k<length (frames W). int (frame_index (initial C W) + k) mod frame_interval C = 0 \<and>
           of_frame (save_path C) (frames W ! k) (frame_index (initial C W) + k) e)"
    by (rule bspec)
  with pe show ?thesis by (simp add: initial_def)
qed

lemma iteration_same_frame:
  assumes "frame_interval C = 1"
      and "hash_func C frame (hash_size C) = Inr h"
      and "previous_hash s = Some h"
      and "0 < hash_diff_threshold C"
  shows "\<exists>s'. iteration G C s frame = Inr s' \<and>
           frame_index s' = Suc (frame_index s) \<and>
           saved_frame_count s' = saved_frame_count s \<and>
           previous_hash s' = Some h \<and>
           trace s' = trace s @ duplicate_events (frame_index s)
             @ (if is_mostly_black_or_white G frame (black_white_threshold C) 225
                then [PrintSkipBlackWhite (frame_index s)] else [])"
  using assms
  by (simp add: iteration_def save_and_advance_def Let_def hash_sub_self duplicate_events_def)

lemma while_loop_same_frame:
  assumes "frame_interval C = 1"
      and "hash_func C frame (hash_size C) = Inr h"
      and "0 < hash_diff_threshold C"
      and "\<not> is_mostly_black_or_white G frame (black_white_threshold C) 225"
  shows "previous_hash s = Some h \<Longrightarrow>
         \<exists>s'. while_loop G C s (replicate n frame) = Inr s' \<and>
           frame_index s' = frame_index s + n \<and>
           saved_frame_count s' = saved_frame_count s \<and>
           trace s' = trace s @
             concat (map duplicate_events [frame_index s..<frame_index s + n])"
proof (induction n arbitrary: s)
  case 0
  show ?case by simp
next
  case (Suc n)
  from iteration_same_frame [OF assms(1,2) Suc.prems assms(3), of G] assms(4)
  obtain s1 where
    it: "iteration G C s frame = Inr s1" and
    i1: "frame_index s1 = Suc (frame_index s)" and
    c1: "saved_frame_count s1 = saved_frame_count s" and
    p1: "previous_hash s1 = Some h" and
    t1: "trace s1 = trace s @ duplicate_events (frame_index s)"
    by auto
  from Suc.IH [OF p1] obtain s' where
    run: "while_loop G C s1 (replicate n frame) = Inr s'" and
    i2: "frame_index s' = frame_index s1 + n" and
    c2: "saved_frame_count s' = saved_frame_count s1" and
    t2: "trace s' = trace s1 @ concat (map duplicate_events [frame_index s1..<frame_index s1 + n])"
    by auto
  have "[frame_index s..<frame_index s + Suc n] =
          frame_index s # [Suc (frame_index s)..<Suc (frame_index s) + n]"
    by (simp add: upt_conv_Cons)
  then have "trace s' = trace s @
      concat (map duplicate_events [frame_index s..<frame_index s + Suc n])"
    using t1 t2 i1 by simp
  moreover have "while_loop G C s (replicate (Suc n) frame) = Inr s'"
    using it run by simp
  ultimately show ?case using i1 i2 c1 c2 by simp
qed

lemma iteration_first_kept:
  assumes "frame_interval C = 1"
      and "hash_func C frame (hash_size C) = Inr h"
      and "\<not> is_mostly_black_or_white G frame (black_white_threshold C) 225"
      and "previous_hash s = None"
  shows "\<exists>s'. iteration G C s frame = Inr s' \<and>
           frame_index s' = Suc (frame_index s) \<and>
           saved_frame_count s' = Suc (saved_frame_count s) \<and>
           previous_hash s' = Some h \<and>
           trace s' = trace s @ [CapRead (frame_index s), Classify (frame_index s),
             Hash (frame_index s), Imwrite (save_filename (save_path C) (frame_index s)) frame]"
  using assms by (simp add: iteration_def save_and_advance_def Let_def)

lemma iteration_returns:
  assumes "frame_interval C \<noteq> 0"
      and "hash_func C f (hash_size C) = Inr h" and "length h = n"
      and "\<forall>p. previous_hash s = Some p \<longrightarrow> length p = n"
  shows "\<exists>s'. iteration G C s f = Inr s' \<and> (\<forall>p. previous_hash s' = Some p \<longrightarrow> length p = n)"
  using assms
  by (auto simp: iteration_def save_and_advance_def hash_sub_def Let_def split: option.splits)

lemma while_loop_returns:
  assumes "frame_interval C \<noteq> 0"
  shows "\<forall>f\<in>set fs. \<exists>h. hash_func C f (hash_size C) = Inr h \<and> length h = n \<Longrightarrow>
         \<forall>p. previous_hash s = Some p \<longrightarrow> length p = n \<Longrightarrow>
         \<exists>s'. while_loop G C s fs = Inr s'"
proof (induction fs arbitrary: s)
  case Nil
  show ?case by simp
next
  case (Cons f fs)
  from Cons.prems(1) obtain h where h: "hash_func C f (hash_size C) = Inr h" "length h = n"
    by auto
  from iteration_returns [OF assms h Cons.prems(2), of G] obtain s1 where
    it: "iteration G C s f = Inr s1" and
    p1: "\<forall>p. previous_hash s1 = Some p \<longrightarrow> length p = n"
    by auto
  from Cons.prems(1) have "\<forall>f\<in>set fs. \<exists>h. hash_func C f (hash_size C) = Inr h \<and> length h = n"
    by simp
  from Cons.IH [OF this p1] obtain s' where "while_loop G C s1 fs = Inr s'" by auto
  with it show ?case by simp
qed

section \<open>The stored fingerprint\<close>

text \<open>
  Claim C1. In every run, once the pass over a sampled frame \<open>i\<close> has completed, the stored
  fingerprint is the fingerprint of frame \<open>i\<close> itself, whatever became of the frame: kept,
  skipped as a duplicate, or skipped as black or white. The state \<open>s\<close> is the one the loop
  is in after its first \<open>i + 1\<close> passes.
\<close>

theorem stored_fingerprint_is_current:
  assumes "while_loop G C (initial C W) (take (Suc i) (frames W)) = Inr s"
      and "i < length (frames W)"
      and "int i mod frame_interval C = 0"
  shows "\<exists>h. hash_func C (frames W ! i) (hash_size C) = Inr h \<and> previous_hash s = Some h"
proof -
  have "take (Suc i) (frames W) = take i (frames W) @ [frames W ! i]"
    using assms(2) by (rule take_Suc_conv_app_nth)
  with assms(1) while_loop_snoc obtain s1 where
    pre: "while_loop G C (initial C W) (take i (frames W)) = Inr s1" and
    it: "iteration G C s1 (frames W ! i) = Inr s"
    by metis
  from while_loop_frame_index [OF pre] assms(2) have "frame_index s1 = i"
    by (simp add: initial_def)
  with assms(3) have "int (frame_index s1) mod frame_interval C = 0" by simp
  from iteration_sampled_hash [OF it this] show ?thesis .
qed

text \<open>
  In the example the second frame is skipped as a duplicate of the first, which was kept,
  and the fingerprint stored afterwards is that of the second frame.
\<close>

theorem stored_fingerprint_is_current_witness:
  "while_loop mean_of_four (example_config 1 2)
     (initial (example_config 1 2) (example_world [frame_a, frame_b]))
     (take (Suc 1) (frames (example_world [frame_a, frame_b])))
     = Inr \<lparr>frame_index = 2, saved_frame_count = 1,
            previous_hash = Some [False, True, False, False],
            trace = [PrintTotalFrames 2 30,
                     CapRead 0, Classify 0, Hash 0, Imwrite ''out/frame_0.jpg'' frame_a,
                     CapRead 1, Classify 1, Hash 1, PrintSkipDuplicate 1 1]\<rparr>
   \<and> hash_func (example_config 1 2) (frames (example_world [frame_a, frame_b]) ! 0)
         (hash_size (example_config 1 2)) = Inr [False, True, False, True]
   \<and> hash_func (example_config 1 2) (frames (example_world [frame_a, frame_b]) ! 1)
         (hash_size (example_config 1 2)) = Inr [False, True, False, False]
   \<and> previous_hash
        (\<lparr>frame_index = 2, saved_frame_count = 1,
          previous_hash = Some [False, True, False, False],
          trace = [PrintTotalFrames 2 30,
                   CapRead 0, Classify 0, Hash 0, Imwrite ''out/frame_0.jpg'' frame_a,
                   CapRead 1, Classify 1, Hash 1, PrintSkipDuplicate 1 1]\<rparr>
         :: gray_frame state) = Some [False, True, False, False]"
proof -
  let ?C = "example_config 1 2"
  let ?W = "example_world [frame_a, frame_b]"
  let ?s = "\<lparr>frame_index = 2, saved_frame_count = 1,
            previous_hash = Some [False, True, False, False],
            trace = [PrintTotalFrames 2 30,
                     CapRead 0, Classify 0, Hash 0, Imwrite ''out/frame_0.jpg'' frame_a,
                     CapRead 1, Classify 1, Hash 1, PrintSkipDuplicate 1 1]\<rparr> :: gray_frame state"
  have run: "while_loop mean_of_four ?C (initial ?C ?W) (take (Suc 1) (frames ?W)) = Inr ?s"
    by (simp add: ex_defs)
  have lt: "1 < length (frames ?W)" by (simp add: example_world_def)
  have sm: "int 1 mod frame_interval ?C = 0" by (simp add: example_config_def)
  have h0: "hash_func ?C (frames ?W ! 0) (hash_size ?C) = Inr [False, True, False, True]"
    by (simp add: ex_defs)
  have h1: "hash_func ?C (frames ?W ! 1) (hash_size ?C) = Inr [False, True, False, False]"
    by (simp add: ex_defs)
  from stored_fingerprint_is_current [OF run lt sm] obtain h where
    a: "hash_func ?C (frames ?W ! 1) (hash_size ?C) = Inr h" and b: "previous_hash ?s = Some h"
    by blast
  from a h1 have "h = [False, True, False, False]" by simp
  with b have c: "previous_hash ?s = Some [False, True, False, False]" by simp
  show ?thesis by (intro conjI run h0 h1 c)
qed

text \<open>
  Claim C9. The stored fingerprint is absent only before the first pass. In the state that
  any later pass starts in, that is after \<open>j \<ge> 1\<close> completed passes, a fingerprint is
  stored: the branch for an absent fingerprint is taken by the pass over frame 0 alone,
  and every later sampled frame is compared with a fingerprint.
\<close>

theorem stored_fingerprint_stays:
  assumes "while_loop G C (initial C W) (take j (frames W)) = Inr s"
      and "0 < j" and "j \<le> length (frames W)"
  shows "previous_hash (initial C W) = None \<and> previous_hash s \<noteq> None"
proof -
  from assms(2,3) obtain f fs where "take j (frames W) = f # fs"
    by (cases "take j (frames W)") auto
  with assms(1) have "while_loop G C (initial C W) (f # fs) = Inr s" by simp
  moreover have "frame_index (initial C W) = 0" by (simp add: initial_def)
  ultimately have "previous_hash s \<noteq> None" by (rule while_loop_first_sets)
  then show ?thesis by (simp add: initial_def)
qed

theorem stored_fingerprint_stays_witness:
  "while_loop mean_of_four (example_config 1 2)
     (initial (example_config 1 2) (example_world [frame_a, frame_b]))
     (take 1 (frames (example_world [frame_a, frame_b])))
     = Inr \<lparr>frame_index = 1, saved_frame_count = 1,
            previous_hash = Some [False, True, False, True],
            trace = [PrintTotalFrames 2 30,
                     CapRead 0, Classify 0, Hash 0, Imwrite ''out/frame_0.jpg'' frame_a]\<rparr>
   \<and> previous_hash (initial (example_config 1 2) (example_world [frame_a, frame_b])) = None
   \<and> previous_hash
        (\<lparr>frame_index = 1, saved_frame_count = 1,
          previous_hash = Some [False, True, False, True],
          trace = [PrintTotalFrames 2 30,
                   CapRead 0, Classify 0, Hash 0, Imwrite ''out/frame_0.jpg'' frame_a]\<rparr>
         :: gray_frame state) \<noteq> None"
proof -
  let ?C = "example_config 1 2"
  let ?W = "example_world [frame_a, frame_b]"
  let ?s = "\<lparr>frame_index = 1, saved_frame_count = 1,
            previous_hash = Some [False, True, False, True],
            trace = [PrintTotalFrames 2 30,
                     CapRead 0, Classify 0, Hash 0, Imwrite ''out/frame_0.jpg'' frame_a]\<rparr>
            :: gray_frame state"
  have run: "while_loop mean_of_four ?C (initial ?C ?W) (take 1 (frames ?W)) = Inr ?s"
    by (simp add: ex_defs)
  have pos: "0 < (1::nat)" by simp
  have le: "1 \<le> length (frames ?W)" by (simp add: example_world_def)
  from stored_fingerprint_stays [OF run pos le]
  have a: "previous_hash (initial ?C ?W) = None" and b: "previous_hash ?s \<noteq> None"
    by blast+
  show ?thesis by (intro conjI run a b)
qed

section \<open>The stride\<close>

text \<open>
  Claim C5. With a stride \<open>K \<ge> 1\<close>: every event that classifies, hashes, reports or writes
  a frame is about a frame whose index is a multiple of \<open>K\<close>, in every run, whether it
  returns or raises; a run that returns has classified and hashed every frame whose index
  is a multiple of \<open>K\<close>; and a pass over a frame whose index is not a multiple of \<open>K\<close> only
  reads the frame and increments the index, leaving the stored fingerprint and the count of
  saved frames as they were.
\<close>

theorem stride_sampling:
  assumes "1 \<le> frame_interval C"
  shows "(\<forall>e\<in>set (outcome_trace (extract_frames G C W)). processes e \<longrightarrow>
            (\<exists>i<length (frames W). int i mod frame_interval C = 0 \<and>
               of_frame (save_path C) (frames W ! i) i e))
         \<and> (is_opened W \<and> extract_frames G C W = Returned t \<longrightarrow>
              (\<forall>i<length (frames W). int i mod frame_interval C = 0 \<longrightarrow>
                 Classify i \<in> set t \<and> Hash i \<in> set t))
         \<and> (\<forall>s frame. int (frame_index s) mod frame_interval C \<noteq> 0 \<longrightarrow>
               iteration G C s frame =
                 Inr (s\<lparr>trace := trace s @ [CapRead (frame_index s)],
                        frame_index := frame_index s + 1\<rparr>))"
proof (intro conjI)
  show "\<forall>e\<in>set (outcome_trace (extract_frames G C W)). processes e \<longrightarrow>
            (\<exists>i<length (frames W). int i mod frame_interval C = 0 \<and>
               of_frame (save_path C) (frames W ! i) i e)"
    using extract_frames_events by blast
  show "is_opened W \<and> extract_frames G C W = Returned t \<longrightarrow>
              (\<forall>i<length (frames W). int i mod frame_interval C = 0 \<longrightarrow>
                 Classify i \<in> set t \<and> Hash i \<in> set t)"
  proof (intro impI allI)
    fix i
    assume a: "is_opened W \<and> extract_frames G C W = Returned t"
      and lt: "i < length (frames W)" and sm: "int i mod frame_interval C = 0"
    from a extract_frames_returned obtain s where
      run: "while_loop G C (initial C W) (frames W) = Inr s" and
      t: "t = trace s @ [CapRelease, PrintDone (saved_frame_count s) (save_path C)]"
      by blast
    have i0: "frame_index (initial C W) = 0" by (simp add: initial_def)
    with while_loop_classifies [OF run, of i] lt sm
    have "Classify i \<in> set (trace s) \<and> Hash i \<in> set (trace s)" by simp
    with t show "Classify i \<in> set t \<and> Hash i \<in> set t" by simp
  qed
  show "\<forall>s frame. int (frame_index s) mod frame_interval C \<noteq> 0 \<longrightarrow>
               iteration G C s frame =
                 Inr (s\<lparr>trace := trace s @ [CapRead (frame_index s)],
                        frame_index := frame_index s + 1\<rparr>)"
    using assms by (simp add: iteration_skip)
qed

theorem stride_sampling_witness:
  "1 \<le> frame_interval (example_config 2 2)
   \<and> is_opened (example_world [frame_a, frame_b, frame_black])
   \<and> extract_frames mean_of_four (example_config 2 2) (example_world [frame_a, frame_b, frame_black])
       = Returned [PrintTotalFrames 3 30,
                   CapRead 0, Classify 0, Hash 0, Imwrite ''out/frame_0.jpg'' frame_a,
                   CapRead 1,
                   CapRead 2, Classify 2, Hash 2, PrintSkipBlackWhite 2,
                   CapRelease, PrintDone 1 ''out'']
   \<and> Classify 2 \<in> set [PrintTotalFrames 3 30,
                   CapRead 0, Classify 0, Hash 0, Imwrite ''out/frame_0.jpg'' frame_a,
                   CapRead 1,
                   CapRead 2, Classify 2, Hash 2, PrintSkipBlackWhite 2,
                   CapRelease, PrintDone 1 ''out'']
   \<and> iteration mean_of_four (example_config 2 2)
        \<lparr>frame_index = 1, saved_frame_count = 1,
         previous_hash = Some [False, True, False, True], trace = []\<rparr> frame_b
       = Inr \<lparr>frame_index = 2, saved_frame_count = 1,
              previous_hash = Some [False, True, False, True], trace = [CapRead 1]\<rparr>"
proof -
  let ?C = "example_config 2 2"
  let ?W = "example_world [frame_a, frame_b, frame_black]"
  let ?t = "[PrintTotalFrames 3 30,
                   CapRead 0, Classify 0, Hash 0, Imwrite ''out/frame_0.jpg'' frame_a,
                   CapRead 1,
                   CapRead 2, Classify 2, Hash 2, PrintSkipBlackWhite 2,
                   CapRelease, PrintDone 1 ''out''] :: gray_frame event list"
  let ?s = "\<lparr>frame_index = 1, saved_frame_count = 1,
         previous_hash = Some [False, True, False, True], trace = []\<rparr> :: gray_frame state"
  have K: "1 \<le> frame_interval ?C" by (simp add: example_config_def)
  have op: "is_opened ?W" by (simp add: example_world_def)
  have run: "extract_frames mean_of_four ?C ?W = Returned ?t" by (simp add: ex_defs)
  note inst = stride_sampling [OF K, of mean_of_four ?W ?t]
  have lt: "2 < length (frames ?W)" by (simp add: example_world_def)
  have sm: "int 2 mod frame_interval ?C = 0" by (simp add: example_config_def)
  from inst [THEN conjunct2, THEN conjunct1, rule_format, OF conjI [OF op run] lt sm]
  have c: "Classify 2 \<in> set ?t" by (rule conjunct1)
  have ns: "int (frame_index ?s) mod frame_interval ?C \<noteq> 0"
    by (simp add: example_config_def)
  from inst [THEN conjunct2, THEN conjunct2, rule_format, OF ns, of frame_b]
  have d: "iteration mean_of_four ?C ?s frame_b
       = Inr \<lparr>frame_index = 2, saved_frame_count = 1,
              previous_hash = Some [False, True, False, True], trace = [CapRead 1]\<rparr>"
    by simp
  show ?thesis by (intro conjI K op run c d)
qed

section \<open>The count of saved frames\<close>

text \<open>
  Claim C10. A pass adds to \<^verbatim>\<open>saved_frame_count\<close> exactly the number of calls of
  \<^verbatim>\<open>cv2.imwrite\<close> it made, which is at most one; and the count that a run prints on
  completion is the number of such calls in the whole run.
\<close>

theorem saved_count_is_writes:
  "(iteration G C s frame = Inr s' \<longrightarrow>
      saved_frame_count s' = saved_frame_count s + length (filter is_imwrite (emitted s s'))
      \<and> length (filter is_imwrite (emitted s s')) \<le> 1)
   \<and> (is_opened W \<and> extract_frames G C W = Returned t \<longrightarrow>
        (\<exists>t0 n. t = t0 @ [CapRelease, PrintDone n (save_path C)]
           \<and> n = length (filter is_imwrite t0) \<and> n = length (filter is_imwrite t)))"
proof (intro conjI impI)
  assume it: "iteration G C s frame = Inr s'"
  from iteration_trace [OF it] obtain ev where
    t: "trace s' = trace s @ ev" and
    c: "saved_frame_count s' = saved_frame_count s + length (filter is_imwrite ev)"
    by blast
  from t have e: "emitted s s' = ev" by (rule emitted_append)
  show "saved_frame_count s' = saved_frame_count s + length (filter is_imwrite (emitted s s'))"
    using c e by simp
  show "length (filter is_imwrite (emitted s s')) \<le> 1"
  proof (cases "int (frame_index s) mod frame_interval C = 0")
    case True
    from iteration_sampled_fields [OF it True] obtain h where
      "trace s' = trace s @ sampled_events G C (frame_index s) (previous_hash s) h frame"
      by blast
    then have "emitted s s' = sampled_events G C (frame_index s) (previous_hash s) h frame"
      by (rule emitted_append)
    then show ?thesis by (simp add: sampled_events_def split: option.splits)
  next
    case False
    from iteration_skip_fields [OF it False]
    have "trace s' = trace s @ [CapRead (frame_index s)]" by simp
    then have "emitted s s' = [CapRead (frame_index s)]" by (rule emitted_append)
    then show ?thesis by simp
  qed
next
  assume a: "is_opened W \<and> extract_frames G C W = Returned t"
  with extract_frames_returned obtain s where
    run: "while_loop G C (initial C W) (frames W) = Inr s" and
    t: "t = trace s @ [CapRelease, PrintDone (saved_frame_count s) (save_path C)]"
    by blast
  from while_loop_trace [OF run] obtain ev where
    tr: "trace s = trace (initial C W) @ ev" and
    c: "saved_frame_count s = saved_frame_count (initial C W) + length (filter is_imwrite ev)"
    by blast
  have "saved_frame_count s = length (filter is_imwrite (trace s))"
    using tr c by (simp add: filter_imwrite_initial) (simp add: initial_def)
  with t show "\<exists>t0 n. t = t0 @ [CapRelease, PrintDone n (save_path C)]
           \<and> n = length (filter is_imwrite t0) \<and> n = length (filter is_imwrite t)"
    by simp
qed

theorem saved_count_is_writes_witness:
  "iteration mean_of_four (example_config 1 2)
     \<lparr>frame_index = 0, saved_frame_count = 0, previous_hash = None, trace = []\<rparr> frame_a
     = Inr \<lparr>frame_index = 1, saved_frame_count = 1,
            previous_hash = Some [False, True, False, True],
            trace = [CapRead 0, Classify 0, Hash 0, Imwrite ''out/frame_0.jpg'' frame_a]\<rparr>
   \<and> length (filter is_imwrite
        (emitted
           (\<lparr>frame_index = 0, saved_frame_count = 0, previous_hash = None, trace = []\<rparr>
            :: gray_frame state)
           \<lparr>frame_index = 1, saved_frame_count = 1,
            previous_hash = Some [False, True, False, True],
            trace = [CapRead 0, Classify 0, Hash 0, Imwrite ''out/frame_0.jpg'' frame_a]\<rparr>))
       = 1
   \<and> is_opened (example_world [frame_a, frame_b])
   \<and> extract_frames mean_of_four (example_config 1 2) (example_world [frame_a, frame_b])
       = Returned [PrintTotalFrames 2 30,
                   CapRead 0, Classify 0, Hash 0, Imwrite ''out/frame_0.jpg'' frame_a,
                   CapRead 1, Classify 1, Hash 1, PrintSkipDuplicate 1 1,
                   CapRelease, PrintDone 1 ''out'']
   \<and> length (filter is_imwrite
        [PrintTotalFrames 2 30,
         CapRead 0, Classify 0, Hash 0, Imwrite ''out/frame_0.jpg'' frame_a,
         CapRead 1, Classify 1, Hash 1, PrintSkipDuplicate 1 1,
         CapRelease, PrintDone 1 ''out'']) = 1"
proof -
  let ?C = "example_config 1 2"
  let ?W = "example_world [frame_a, frame_b]"
  let ?s = "\<lparr>frame_index = 0, saved_frame_count = 0, previous_hash = None, trace = []\<rparr>
            :: gray_frame state"
  let ?s' = "\<lparr>frame_index = 1, saved_frame_count = 1,
            previous_hash = Some [False, True, False, True],
            trace = [CapRead 0, Classify 0, Hash 0, Imwrite ''out/frame_0.jpg'' frame_a]\<rparr>
            :: gray_frame state"
  let ?t = "[PrintTotalFrames 2 30,
             CapRead 0, Classify 0, Hash 0, Imwrite ''out/frame_0.jpg'' frame_a,
             CapRead 1, Classify 1, Hash 1, PrintSkipDuplicate 1 1,
             CapRelease, PrintDone 1 ''out''] :: gray_frame event list"
  have it: "iteration mean_of_four ?C ?s frame_a = Inr ?s'" by (simp add: ex_defs)
  have op: "is_opened ?W" by (simp add: example_world_def)
  have run: "extract_frames mean_of_four ?C ?W = Returned ?t" by (simp add: ex_defs)
  from saved_count_is_writes [of mean_of_four ?C ?s frame_a ?s' ?W ?t] it op run
  have a: "saved_frame_count ?s' = saved_frame_count ?s + length (filter is_imwrite (emitted ?s ?s'))"
    and b: "\<exists>t0 n. ?t = t0 @ [CapRelease, PrintDone n (save_path ?C)]
           \<and> n = length (filter is_imwrite t0) \<and> n = length (filter is_imwrite ?t)"
    by blast+
  from a have c: "length (filter is_imwrite (emitted ?s ?s')) = 1" by simp
  from b have d: "length (filter is_imwrite ?t) = 1" by auto
  show ?thesis by (intro conjI it c op run d)
qed

section \<open>Configurations the specification calls invalid\<close>

text \<open>
  Claim C4, as amended. \<^verbatim>\<open>extract_frames\<close> checks no argument before the loop: with a video
  that opens and has a first frame, that frame is read whatever the configuration. With
  stride 0 the run then raises \<^verbatim>\<open>ZeroDivisionError\<close>, having classified, hashed and written
  nothing. With any other stride, negative ones included, and any grid size and
  thresholds, the first frame is classified and handed to the hash function.
\<close>

theorem no_configuration_check:
  assumes "is_opened W" and "frames W = frame # rest"
  shows "(frame_interval C = 0 \<longrightarrow>
            extract_frames G C W =
              Raised ZeroDivisionError (trace (initial C W) @ [CapRead 0]))
         \<and> (frame_interval C \<noteq> 0 \<longrightarrow>
              (\<exists>t. outcome_trace (extract_frames G C W) =
                 trace (initial C W) @ [CapRead 0, Classify 0, Hash 0] @ t))"
proof (intro conjI impI)
  assume "frame_interval C = 0"
  then show "extract_frames G C W =
      Raised ZeroDivisionError (trace (initial C W) @ [CapRead 0])"
    using assms by (simp add: extract_frames_def iteration_zero) (simp add: initial_def)
next
  assume K: "frame_interval C \<noteq> 0"
  have i0: "frame_index (initial C W) = 0" by (simp add: initial_def)
  then have "int (frame_index (initial C W)) mod frame_interval C = 0" by simp
  from iteration_first_events [OF K this, of G frame] i0 obtain ev1 where
    e1: "result_trace (iteration G C (initial C W) frame) =
           trace (initial C W) @ [CapRead 0, Classify 0, Hash 0] @ ev1"
    by auto
  have "\<exists>ev. result_trace (while_loop G C (initial C W) (frame # rest)) =
           trace (initial C W) @ [CapRead 0, Classify 0, Hash 0] @ ev"
  proof (cases "iteration G C (initial C W) frame")
    case (Inl a)
    with e1 show ?thesis by auto
  next
    case (Inr s1)
    obtain ev2 where "result_trace (while_loop G C s1 rest) = trace s1 @ ev2"
      using while_loop_result_trace [of G C s1 rest] by (elim exE)
    with Inr e1 show ?thesis by simp
  qed
  then obtain ev where
    ev: "result_trace (while_loop G C (initial C W) (frames W)) =
           trace (initial C W) @ [CapRead 0, Classify 0, Hash 0] @ ev"
    using assms(2) by auto
  show "\<exists>t. outcome_trace (extract_frames G C W) =
                 trace (initial C W) @ [CapRead 0, Classify 0, Hash 0] @ t"
  proof (cases "while_loop G C (initial C W) (frames W)")
    case (Inl a)
    with ev assms(1) show ?thesis
      by (cases a) (simp add: extract_frames_trace)
  next
    case (Inr s)
    with ev assms(1) show ?thesis by (simp add: extract_frames_trace)
  qed
qed

theorem no_configuration_check_witness:
  "is_opened (example_world [frame_a])
   \<and> frames (example_world [frame_a]) = frame_a # []
   \<and> extract_frames mean_of_four (example_config 0 10) (example_world [frame_a])
       = Raised ZeroDivisionError [PrintTotalFrames 1 30, CapRead 0]
   \<and> (\<exists>t. outcome_trace
             (extract_frames mean_of_four (example_config (- 1) 10) (example_world [frame_a]))
           = [PrintTotalFrames 1 30, CapRead 0, Classify 0, Hash 0] @ t)"
proof -
  let ?W = "example_world [frame_a]"
  have op: "is_opened ?W" by (simp add: example_world_def)
  have fr: "frames ?W = frame_a # []" by (simp add: example_world_def)
  from no_configuration_check [OF op fr, of "example_config 0 10" mean_of_four]
  have a: "extract_frames mean_of_four (example_config 0 10) ?W
       = Raised ZeroDivisionError [PrintTotalFrames 1 30, CapRead 0]"
    by (simp add: example_config_def example_world_def initial_def preamble_def)
  from no_configuration_check [OF op fr, of "example_config (- 1) 10" mean_of_four]
  have b: "\<exists>t. outcome_trace (extract_frames mean_of_four (example_config (- 1) 10) ?W)
           = [PrintTotalFrames 1 30, CapRead 0, Classify 0, Hash 0] @ t"
    by (simp add: example_config_def example_world_def initial_def preamble_def)
  show ?thesis by (intro conjI op fr a b)
qed

text \<open>
  The claim as first stated fails: with stride \<open>-1\<close> both frames of a two-frame video are
  read, classified and hashed, and the first is written.
\<close>

theorem no_configuration_check_counterexample:
  "frame_interval (example_config (- 1) 10) \<le> 0
   \<and> extract_frames mean_of_four (example_config (- 1) 10) (example_world [frame_a, frame_a])
       = Returned [PrintTotalFrames 2 30,
                   CapRead 0, Classify 0, Hash 0, Imwrite ''out/frame_0.jpg'' frame_a,
                   CapRead 1, Classify 1, Hash 1, PrintSkipDuplicate 1 0,
                   CapRelease, PrintDone 1 ''out'']"
  by (simp add: ex_defs)

section \<open>A video of identical frames\<close>

text \<open>
  Claim C7, as amended. For a video of \<open>N \<ge> 1\<close> identical frames that are not black or
  white and for which the hash function returns a fingerprint, with stride 1 and a
  distance threshold of at least 1: the first frame is written, every later frame is
  reported as a duplicate at distance 0, and the run reports one saved frame.
\<close>

theorem identical_frames:
  assumes "is_opened W"
      and "frames W = replicate N frame" and "1 \<le> N"
      and "frame_interval C = 1"
      and "\<not> is_mostly_black_or_white G frame (black_white_threshold C) 225"
      and "hash_func C frame (hash_size C) = Inr h"
      and "1 \<le> hash_diff_threshold C"
  shows "extract_frames G C W =
           Returned (trace (initial C W)
             @ [CapRead 0, Classify 0, Hash 0, Imwrite (save_filename (save_path C) 0) frame]
             @ concat (map (\<lambda>i. [CapRead i, Classify i, Hash i, PrintSkipDuplicate i 0]) [1..<N])
             @ [CapRelease, PrintDone 1 (save_path C)])"
proof -
  from assms(3) obtain n where N: "N = Suc n" by (cases N) auto
  have T: "0 < hash_diff_threshold C" using assms(7) by simp
  have "previous_hash (initial C W) = None" by (simp add: initial_def)
  from iteration_first_kept [OF assms(4,6,5) this] obtain s1 where
    it: "iteration G C (initial C W) frame = Inr s1" and
    i1: "frame_index s1 = 1" and
    c1: "saved_frame_count s1 = 1" and
    p1: "previous_hash s1 = Some h" and
    t1: "trace s1 = trace (initial C W) @ [CapRead 0, Classify 0, Hash 0,
           Imwrite (save_filename (save_path C) 0) frame]"
    by (auto simp: initial_def)
  from while_loop_same_frame [OF assms(4,6) T assms(5) p1, of n] obtain s' where
    run: "while_loop G C s1 (replicate n frame) = Inr s'" and
    c2: "saved_frame_count s' = saved_frame_count s1" and
    t2: "trace s' = trace s1 @ concat (map duplicate_events [frame_index s1..<frame_index s1 + n])"
    by auto
  have "while_loop G C (initial C W) (frames W) = Inr s'"
    using assms(2) N it run by simp
  moreover have m: "concat (map duplicate_events [frame_index s1..<frame_index s1 + n]) =
      concat (map (\<lambda>i. [CapRead i, Classify i, Hash i, PrintSkipDuplicate i 0]) [1..<N])"
    unfolding i1 N duplicate_events_def by simp
  moreover have "trace s' = trace (initial C W)
             @ [CapRead 0, Classify 0, Hash 0, Imwrite (save_filename (save_path C) 0) frame]
             @ concat (map (\<lambda>i. [CapRead i, Classify i, Hash i, PrintSkipDuplicate i 0]) [1..<N])"
    unfolding t2 t1 m by simp
  moreover have "saved_frame_count s' = 1" using c1 c2 by simp
  ultimately show ?thesis
    using assms(1) by (simp add: extract_frames_def)
qed

theorem identical_frames_witness:
  "is_opened (example_world [frame_a, frame_a, frame_a])
   \<and> frames (example_world [frame_a, frame_a, frame_a]) = replicate 3 frame_a
   \<and> \<not> is_mostly_black_or_white mean_of_four frame_a (black_white_threshold (example_config 1 10)) 225
   \<and> hash_func (example_config 1 10) frame_a (hash_size (example_config 1 10))
       = Inr [False, True, False, True]
   \<and> extract_frames mean_of_four (example_config 1 10) (example_world [frame_a, frame_a, frame_a])
       = Returned [PrintTotalFrames 3 30,
                   CapRead 0, Classify 0, Hash 0, Imwrite ''out/frame_0.jpg'' frame_a,
                   CapRead 1, Classify 1, Hash 1, PrintSkipDuplicate 1 0,
                   CapRead 2, Classify 2, Hash 2, PrintSkipDuplicate 2 0,
                   CapRelease, PrintDone 1 ''out'']"
proof -
  let ?C = "example_config 1 10"
  let ?W = "example_world [frame_a, frame_a, frame_a]"
  have op: "is_opened ?W" by (simp add: example_world_def)
  have fr: "frames ?W = replicate 3 frame_a" by (simp add: example_world_def numeral_3_eq_3)
  have N: "1 \<le> (3::nat)" by simp
  have K: "frame_interval ?C = 1" by (simp add: example_config_def)
  have bw: "\<not> is_mostly_black_or_white mean_of_four frame_a (black_white_threshold ?C) 225"
    by (simp add: ex_defs)
  have h: "hash_func ?C frame_a (hash_size ?C) = Inr [False, True, False, True]"
    by (simp add: ex_defs)
  have T: "1 \<le> hash_diff_threshold ?C" by (simp add: example_config_def)
  have u: "[1..<3] = [1, 2::nat]" by (simp add: upt_rec)
  from identical_frames [OF op fr N K bw h T]
  have r: "extract_frames mean_of_four ?C ?W
       = Returned [PrintTotalFrames 3 30,
                   CapRead 0, Classify 0, Hash 0, Imwrite ''out/frame_0.jpg'' frame_a,
                   CapRead 1, Classify 1, Hash 1, PrintSkipDuplicate 1 0,
                   CapRead 2, Classify 2, Hash 2, PrintSkipDuplicate 2 0,
                   CapRelease, PrintDone 1 ''out'']"
    unfolding u
    by (simp add: example_config_def example_world_def initial_def preamble_def
          save_filename_def os_path_join_def digit_char_def)
  show ?thesis by (intro conjI op fr bw h r)
qed

text \<open>
  The claim as first stated fails for a distance threshold of 0: no distance is below it,
  and both of two identical frames are written.
\<close>

theorem identical_frames_counterexample:
  "\<not> is_mostly_black_or_white mean_of_four frame_a (black_white_threshold (example_config 1 0)) 225
   \<and> extract_frames mean_of_four (example_config 1 0) (example_world [frame_a, frame_a])
       = Returned [PrintTotalFrames 2 30,
                   CapRead 0, Classify 0, Hash 0, Imwrite ''out/frame_0.jpg'' frame_a,
                   CapRead 1, Classify 1, Hash 1, Imwrite ''out/frame_1.jpg'' frame_a,
                   CapRelease, PrintDone 2 ''out'']"
  by (simp add: ex_defs)

section \<open>The end of the stream\<close>

text \<open>
  Claim C8, as amended. With a video that opens: when the loop reaches the end of the
  stream, it has read every frame, the capture is released and the run returns after
  printing the number of saved frames; and the loop does reach the end of the stream when
  the stride is not 0 and the hash function returns fingerprints of one length for all
  frames. The number of sampled frames is not part of the report.
\<close>

theorem end_of_stream_report:
  assumes "is_opened W"
  shows "(\<forall>s. while_loop G C (initial C W) (frames W) = Inr s \<longrightarrow>
            frame_index s = length (frames W) \<and>
            extract_frames G C W =
              Returned (trace s @ [CapRelease, PrintDone (saved_frame_count s) (save_path C)]))
         \<and> (frame_interval C \<noteq> 0 \<and>
              (\<forall>f\<in>set (frames W). \<exists>h. hash_func C f (hash_size C) = Inr h \<and> length h = n) \<longrightarrow>
              (\<exists>s. while_loop G C (initial C W) (frames W) = Inr s))"
proof (intro conjI allI impI)
  fix s assume run: "while_loop G C (initial C W) (frames W) = Inr s"
  from while_loop_frame_index [OF run] show "frame_index s = length (frames W)"
    by (simp add: initial_def)
  from run assms show "extract_frames G C W =
      Returned (trace s @ [CapRelease, PrintDone (saved_frame_count s) (save_path C)])"
    by (simp add: extract_frames_def)
next
  assume a: "frame_interval C \<noteq> 0 \<and>
      (\<forall>f\<in>set (frames W). \<exists>h. hash_func C f (hash_size C) = Inr h \<and> length h = n)"
  have "\<forall>p. previous_hash (initial C W) = Some p \<longrightarrow> length p = n"
    by (simp add: initial_def)
  with a while_loop_returns [of C "frames W" n "initial C W" G]
  show "\<exists>s. while_loop G C (initial C W) (frames W) = Inr s" by blast
qed

theorem end_of_stream_report_witness:
  "is_opened (example_world [frame_a, frame_b])
   \<and> while_loop mean_of_four (example_config 1 2)
        (initial (example_config 1 2) (example_world [frame_a, frame_b]))
        (frames (example_world [frame_a, frame_b]))
       = Inr \<lparr>frame_index = 2, saved_frame_count = 1,
              previous_hash = Some [False, True, False, False],
              trace = [PrintTotalFrames 2 30,
                       CapRead 0, Classify 0, Hash 0, Imwrite ''out/frame_0.jpg'' frame_a,
                       CapRead 1, Classify 1, Hash 1, PrintSkipDuplicate 1 1]\<rparr>
   \<and> extract_frames mean_of_four (example_config 1 2) (example_world [frame_a, frame_b])
       = Returned [PrintTotalFrames 2 30,
                   CapRead 0, Classify 0, Hash 0, Imwrite ''out/frame_0.jpg'' frame_a,
                   CapRead 1, Classify 1, Hash 1, PrintSkipDuplicate 1 1,
                   CapRelease, PrintDone 1 ''out'']
   \<and> (\<exists>s. while_loop mean_of_four (example_config 1 2)
              (initial (example_config 1 2) (example_world [frame_a, frame_b]))
              (frames (example_world [frame_a, frame_b])) = Inr s)"
proof -
  let ?C = "example_config 1 2"
  let ?W = "example_world [frame_a, frame_b]"
  let ?s = "\<lparr>frame_index = 2, saved_frame_count = 1,
              previous_hash = Some [False, True, False, False],
              trace = [PrintTotalFrames 2 30,
                       CapRead 0, Classify 0, Hash 0, Imwrite ''out/frame_0.jpg'' frame_a,
                       CapRead 1, Classify 1, Hash 1, PrintSkipDuplicate 1 1]\<rparr>
            :: gray_frame state"
  have op: "is_opened ?W" by (simp add: example_world_def)
  have run: "while_loop mean_of_four ?C (initial ?C ?W) (frames ?W) = Inr ?s"
    by (simp add: ex_defs)
  note inst = end_of_stream_report [OF op, of mean_of_four ?C 4]
  from inst [THEN conjunct1, rule_format, OF run]
  have "extract_frames mean_of_four ?C ?W =
      Returned (trace ?s @ [CapRelease, PrintDone (saved_frame_count ?s) (save_path ?C)])"
    by (rule conjunct2)
  then have r: "extract_frames mean_of_four ?C ?W
       = Returned [PrintTotalFrames 2 30,
                   CapRead 0, Classify 0, Hash 0, Imwrite ''out/frame_0.jpg'' frame_a,
                   CapRead 1, Classify 1, Hash 1, PrintSkipDuplicate 1 1,
                   CapRelease, PrintDone 1 ''out'']"
    by (simp add: example_config_def)
  have ok: "frame_interval ?C \<noteq> 0 \<and>
      (\<forall>f\<in>set (frames ?W). \<exists>h. hash_func ?C f (hash_size ?C) = Inr h \<and> length h = 4)"
    by (simp add: ex_defs)
  from inst [THEN conjunct2, rule_format, OF ok]
  have e: "\<exists>s. while_loop mean_of_four ?C (initial ?C ?W) (frames ?W) = Inr s" .
  show ?thesis by (intro conjI op run r e)
qed

text \<open>
  The claim as first stated fails: at stride 2, a video of five identical frames has three
  sampled frames and one of three identical frames has two, and both runs end with the same
  report, of one saved frame.
\<close>

theorem end_of_stream_report_counterexample:
  "completion_report
     (extract_frames mean_of_four (example_config 2 10)
        (example_world [frame_a, frame_a, frame_a, frame_a, frame_a]))
     = Some (PrintDone 1 ''out'')
   \<and> sampled_count
       (extract_frames mean_of_four (example_config 2 10)
          (example_world [frame_a, frame_a, frame_a, frame_a, frame_a])) = 3
   \<and> completion_report
       (extract_frames mean_of_four (example_config 2 10)
          (example_world [frame_a, frame_a, frame_a]))
       = Some (PrintDone 1 ''out'')
   \<and> sampled_count
       (extract_frames mean_of_four (example_config 2 10)
          (example_world [frame_a, frame_a, frame_a])) = 2"
  by (simp add: ex_defs sampled_count_def)

end
